theory Spec2Isabelle
  imports Complex_Main "HOL-Library.Word"
begin

section \<open>Machine integers and the sketch collection\<close>

text \<open>
  The round arithmetic of \<open>CommandPairwise::run\<close> is carried out in \<open>uint64_t\<close> and
  narrowed to \<open>int\<close>; both widths are kept.  A value of C++ type \<open>int\<close> is a 32-bit
  word read through \<open>sint\<close>; the conversion from \<open>uint64_t\<close> keeps the low 32 bits and
  the conversion back to \<open>uint64_t\<close> extends the sign.

  Cursors and counters that only ever count positions of a vector held in memory
  (\<open>i\<close>, \<open>j\<close>, \<open>common\<close>, \<open>denom\<close>, sketch indices) are natural numbers: they are
  bounded by the lengths of those vectors, so their 64-bit arithmetic never wraps; a
  collection is taken to hold fewer than \<open>2^31\<close> sketches, the range of the \<open>int\<close>
  counters that index it.  The C++ \<open>double\<close> values (distance, p-value, thresholds)
  are idealised as reals.  A function that can leave by a C++ exception returns an
  \<open>option\<close>, \<open>None\<close> standing for the exception.
\<close>

type_synonym u64 = "64 word"
type_synonym i32 = "32 word"

text \<open>
  A \<open>hash_u\<close> is only ever read through the member chosen by the hash-width flag
  (\<open>use64 ? h.hash64 : h.hash32\<close>); the model stores the value of that member,
  widened to 64 bits exactly as \<open>search\<close> widens it into \<open>row\<close>.
\<close>

type_synonym hash_u = u64

record Reference =
  name :: string
  length_ref :: nat
  hashesSorted :: "hash_u list"

record Sketch =
  references :: "Reference list"
  kmerSize :: int
  minHashesPerWindow :: u64
  kmerSpace :: real

definition getReferenceCount :: "Sketch \<Rightarrow> u64" where
  "getReferenceCount sk = of_nat (length (references sk))"

text \<open>
  Modelled from the spec: \<open>Sketch::getReference\<close>, the per-index accessor of the
  sketch collection, is declared outside the files at hand.  An index outside the
  collection has no reference; the model returns \<open>None\<close> there.
\<close>

definition getReference :: "Sketch \<Rightarrow> nat \<Rightarrow> Reference option" where
  "getReference sk i =
     (if i < length (references sk) then Some (references sk ! i) else None)"

text \<open>
  Modelled from the spec: \<open>HashList::at\<close>, the bounds-checked element accessor of a
  sorted hash list.
\<close>

definition at_hl :: "hash_u list \<Rightarrow> nat \<Rightarrow> hash_u option" where
  "at_hl xs i = (if i < length xs then Some (xs ! i) else None)"

text \<open>
  Modelled from the spec: \<open>hashLessThan\<close>, the ordering comparator for hash values
  that is aware of the hash-width flag; on the stored member values it is the
  unsigned order.
\<close>

definition hashLessThan :: "hash_u \<Rightarrow> hash_u \<Rightarrow> bool" where
  "hashLessThan a b = (a < b)"

section \<open>Round partitioning (\<open>CommandPairwise::run\<close>, lines 177--196)\<close>

definition hashTableSize :: u64 where
  "hashTableSize = push_bit 25 1"

definition roundCount :: "u64 \<Rightarrow> u64 \<Rightarrow> u64 \<Rightarrow> i32" where
  "roundCount R S B =
     (let rounds = (ucast (R * S div B div 2) :: i32)
      in if rounds = 0 then 1 else rounds)"

definition roundSize :: "u64 \<Rightarrow> i32 \<Rightarrow> u64" where
  "roundSize R rounds = R div scast rounds"

definition roundRange :: "u64 \<Rightarrow> u64 \<Rightarrow> i32 \<Rightarrow> u64 \<times> u64" where
  "roundRange R rs i =
     (let start = scast i * rs;
          end = scast (i + 1) * rs
      in (start, if end > R then R else end))"

text \<open>The loop \<open>for (int i = 0; i < rounds; i++)\<close> runs no iteration when \<open>rounds\<close>
  is not positive.\<close>

definition roundRanges :: "u64 \<Rightarrow> u64 \<Rightarrow> u64 \<Rightarrow> (u64 \<times> u64) list" where
  "roundRanges R S B =
     (let rounds = roundCount R S B;
          rs = roundSize R rounds
      in map (\<lambda>i. roundRange R rs (of_nat i)) [0..<nat (sint rounds)])"

text \<open>A reference index lies in a round when it is inside its half-open range; it is
  covered by a partition when some round holds it.\<close>

definition inRound :: "u64 \<times> u64 \<Rightarrow> u64 \<Rightarrow> bool" where
  "inRound r x = (fst r \<le> x \<and> x < snd r)"

definition covered :: "(u64 \<times> u64) list \<Rightarrow> u64 \<Rightarrow> bool" where
  "covered rs x = list_ex (\<lambda>r. inRound r x) rs"

section \<open>The inverted hash index (\<open>fillHashTable\<close>, lines 266--329)\<close>

text \<open>
  The index maps a hash value to the list of the sketch indices that hold it.
  \<open>entries\<close> reads the list of a hash value, empty when the key is absent.
\<close>

type_synonym HashTable = "u64 \<Rightarrow> nat list option"

definition entries :: "HashTable \<Rightarrow> u64 \<Rightarrow> nat list" where
  "entries t h = (case t h of None \<Rightarrow> [] | Some l \<Rightarrow> l)"

text \<open>\<open>hashTable[h].push_back(i)\<close>: the subscript creates an empty list for a new key.\<close>

definition push_back_at :: "HashTable \<Rightarrow> u64 \<Rightarrow> nat \<Rightarrow> HashTable" where
  "push_back_at t h i = t(h \<mapsto> entries t h @ [i])"

fun insertHashes :: "HashTable \<Rightarrow> nat \<Rightarrow> hash_u list \<Rightarrow> HashTable" where
  "insertHashes t i [] = t"
| "insertHashes t i (h # hs) = insertHashes (push_back_at t h i) i hs"

function fillLoop :: "Sketch \<Rightarrow> HashTable \<Rightarrow> nat \<Rightarrow> nat \<Rightarrow> HashTable option" where
  "fillLoop sk t i end =
     (if i < end then
        (case getReference sk i of
           None \<Rightarrow> None
         | Some r \<Rightarrow> fillLoop sk (insertHashes t i (hashesSorted r)) (i + 1) end)
      else Some t)"
  by pat_completeness auto
termination
  by (relation "measure (\<lambda>(sk, t, i, end). end - i)") auto

text \<open>
  The statistics pass reads \<open>hashTable[i].size()\<close> for every \<open>i\<close> below the table
  size; the subscript leaves an empty list behind for every key it did not find.
  The figures it prints go to the error stream and are not part of the model.
\<close>

definition touchSlots :: "HashTable \<Rightarrow> u64 \<Rightarrow> HashTable" where
  "touchSlots t n = (\<lambda>k. if k < n then Some (entries t k) else t k)"

definition fillHashTable ::
  "Sketch \<Rightarrow> HashTable \<Rightarrow> u64 \<Rightarrow> nat \<Rightarrow> nat \<Rightarrow> (HashTable \<times> u64) option" where
  "fillHashTable sk t tableSize start end =
     (case fillLoop sk t start end of
        None \<Rightarrow> None
      | Some t' \<Rightarrow> Some (touchSlots t' tableSize, tableSize))"

section \<open>The pair estimator (\<open>compareSketches\<close>, lines 388--467)\<close>

text \<open>
  \<open>pValue\<close> is defined in another file of the program; the estimator takes it as
  a parameter, with the arguments in the order of the call.
\<close>

type_synonym pValue_fn = "nat \<Rightarrow> nat \<Rightarrow> nat \<Rightarrow> real \<Rightarrow> nat \<Rightarrow> real"

record PairOutput =
  index :: nat
  numer :: nat
  denom :: nat
  distance :: real
  pValue :: real

function mergeLoop ::
  "hash_u list \<Rightarrow> hash_u list \<Rightarrow> nat \<Rightarrow> nat \<Rightarrow> nat \<Rightarrow> nat \<Rightarrow> nat
   \<Rightarrow> (nat \<times> nat \<times> nat \<times> nat) option" where
  "mergeLoop ref qry sketchSize i j common den =
     (if den < sketchSize \<and> i < length ref \<and> j < length qry then
        (case at_hl ref i of
           None \<Rightarrow> None
         | Some a \<Rightarrow>
            (case at_hl qry j of
               None \<Rightarrow> None
             | Some b \<Rightarrow>
                if hashLessThan a b then
                  mergeLoop ref qry sketchSize (i + 1) j common (den + 1)
                else if hashLessThan b a then
                  mergeLoop ref qry sketchSize i (j + 1) common (den + 1)
                else
                  mergeLoop ref qry sketchSize (i + 1) (j + 1) (common + 1) (den + 1)))
      else Some (i, j, common, den))"
  by pat_completeness auto
termination
  by (relation "measure (\<lambda>(ref, qry, s, i, j, c, d). (length ref - i) + (length qry - j))")
    auto

definition completeUnion ::
  "hash_u list \<Rightarrow> hash_u list \<Rightarrow> nat \<Rightarrow> nat \<Rightarrow> nat \<Rightarrow> nat \<Rightarrow> nat" where
  "completeUnion ref qry sketchSize i j den =
     (if den < sketchSize then
        (let d1 = (if i < length ref then den + (length ref - i) else den);
             d2 = (if j < length qry then d1 + (length qry - j) else d1)
         in if d2 > sketchSize then sketchSize else d2)
      else den)"

text \<open>The pair \<open>(common, denom)\<close> that the estimator holds at line 437.\<close>

definition sketchCounts :: "hash_u list \<Rightarrow> hash_u list \<Rightarrow> nat \<Rightarrow> (nat \<times> nat) option" where
  "sketchCounts ref qry sketchSize =
     (case mergeLoop ref qry sketchSize 0 0 0 0 of
        None \<Rightarrow> None
      | Some (i, j, common, den) \<Rightarrow> Some (common, completeUnion ref qry sketchSize i j den))"

definition distanceOf :: "nat \<Rightarrow> nat \<Rightarrow> int \<Rightarrow> real" where
  "distanceOf common den kSize =
     (let jaccard = real common / real den
      in if common = den then 0
         else if common = 0 then 1
         else - ln (2 * jaccard / (1 + jaccard)) / real_of_int kSize)"

text \<open>
  The output record is passed by pointer: the model takes it and returns it.  It is
  returned unchanged when the distance test rejects the pair, and written before the
  p-value test.
\<close>

definition compareSketches ::
  "pValue_fn \<Rightarrow> PairOutput \<Rightarrow> Reference \<Rightarrow> Reference \<Rightarrow> nat \<Rightarrow> int \<Rightarrow> real \<Rightarrow> real \<Rightarrow> real
   \<Rightarrow> (bool \<times> PairOutput) option" where
  "compareSketches pv output refRef refQry sketchSize kSize kSpace maxDist maxPVal =
     (case sketchCounts (hashesSorted refRef) (hashesSorted refQry) sketchSize of
        None \<Rightarrow> None
      | Some (common, den) \<Rightarrow>
         (let dist = distanceOf common den kSize
          in if dist > maxDist \<or> dist = 1 then Some (False, output)
             else
               (let output' = output\<lparr>numer := common, denom := den, distance := dist,
                                pValue := pv common (length_ref refRef) (length_ref refQry)
                                            kSpace den\<rparr>
                in Some (pValue output' \<le> maxPVal, output'))))"

subsection \<open>The bounded sorted merge, in the words of the specification\<close>

text \<open>
  Walk both lists with two cursors while the comparison count is below the sketch size
  and both lists have elements left: advance the cursor of the smaller hash, both on
  equality (counting a common hash), and count every step.
\<close>

fun specWalk ::
  "nat \<Rightarrow> hash_u list \<Rightarrow> hash_u list \<Rightarrow> nat \<Rightarrow> nat
   \<Rightarrow> hash_u list \<times> hash_u list \<times> nat \<times> nat" where
  "specWalk s (a # as) (b # bs) common den =
     (if den < s then
        (if a < b then specWalk s as (b # bs) common (den + 1)
         else if b < a then specWalk s (a # as) bs common (den + 1)
         else specWalk s as bs (common + 1) (den + 1))
      else (a # as, b # bs, common, den))"
| "specWalk s as bs common den = (as, bs, common, den)"

text \<open>
  If the merge stops below the sketch size, add what is left of either list and clamp
  to the sketch size.
\<close>

definition specCounts :: "nat \<Rightarrow> hash_u list \<Rightarrow> hash_u list \<Rightarrow> nat \<times> nat" where
  "specCounts s ref qry =
     (case specWalk s ref qry 0 0 of
        (as, bs, common, den) \<Rightarrow>
          (common, if den < s then min s (den + length as + length bs) else den))"

section \<open>The candidate generator and the worker (\<open>search\<close>, lines 331--386)\<close>

record PairwiseInput =
  sketch_in :: Sketch
  index_in :: nat
  maxDistance :: real
  maxPValue :: real
  hashTable :: HashTable
  hashTableSize_in :: u64

record PairwiseOutput =
  sketch_out :: Sketch
  index_out :: nat
  pairs :: "PairOutput list"

text \<open>
  \<open>targets\<close> is a \<open>std::set\<close>: it holds each index once and is iterated in ascending
  order.  The model keeps it as the ascending list of its elements; \<open>insort_insert\<close>
  leaves the list alone when the element is there and puts it in its place otherwise.
\<close>

fun probeIndeces :: "nat \<Rightarrow> nat list \<Rightarrow> nat list \<Rightarrow> nat list" where
  "probeIndeces q [] targets = targets"
| "probeIndeces q (idx # rest) targets =
     probeIndeces q rest (if idx < q then insort_insert idx targets else targets)"

fun probeHashes :: "HashTable \<Rightarrow> nat \<Rightarrow> hash_u list \<Rightarrow> nat list \<Rightarrow> nat list" where
  "probeHashes t q [] targets = targets"
| "probeHashes t q (row # rows) targets =
     probeHashes t q rows
       (case t row of None \<Rightarrow> targets | Some indeces \<Rightarrow> probeIndeces q indeces targets)"

definition searchTargets :: "HashTable \<Rightarrow> nat \<Rightarrow> Reference \<Rightarrow> nat list" where
  "searchTargets t q ref = probeHashes t q (hashesSorted ref) []"

text \<open>
  The local \<open>pair\<close> of the scoring loop is not initialised; every field of it is
  assigned before the pair is stored, so the value it starts from is never seen.
\<close>

definition pair0 :: PairOutput where
  "pair0 = \<lparr>index = 0, numer = 0, denom = 0, distance = 0, pValue = 0\<rparr>"

fun scoreTargets ::
  "pValue_fn \<Rightarrow> PairwiseInput \<Rightarrow> nat \<Rightarrow> int \<Rightarrow> real \<Rightarrow> nat list \<Rightarrow> PairOutput list option" where
  "scoreTargets pv input sketchSize kSize kSpace [] = Some []"
| "scoreTargets pv input sketchSize kSize kSpace (i # targets) =
     (case getReference (sketch_in input) (index_in input) of
        None \<Rightarrow> None
      | Some refRef \<Rightarrow>
         (case getReference (sketch_in input) i of
            None \<Rightarrow> None
          | Some refQry \<Rightarrow>
             (case compareSketches pv pair0 refRef refQry sketchSize kSize kSpace
                     (maxDistance input) (maxPValue input) of
                None \<Rightarrow> None
              | Some (hit, pair) \<Rightarrow>
                 (case scoreTargets pv input sketchSize kSize kSpace targets of
                    None \<Rightarrow> None
                  | Some rest \<Rightarrow> Some (if hit then pair\<lparr>index := i\<rparr> # rest else rest)))))"

definition search :: "pValue_fn \<Rightarrow> PairwiseInput \<Rightarrow> PairwiseOutput option" where
  "search pv input =
     (let sk = sketch_in input;
          sketchSize = unat (minHashesPerWindow sk)
      in case getReference sk (index_in input) of
           None \<Rightarrow> None
         | Some ref \<Rightarrow>
            (let targets = searchTargets (hashTable input) (index_in input) ref
             in case scoreTargets pv input sketchSize (kmerSize sk) (kmerSpace sk) targets of
                  None \<Rightarrow> None
                | Some ps \<Rightarrow> Some \<lparr>sketch_out = sk, index_out = index_in input, pairs = ps\<rparr>))"

section \<open>The output writer and the round loop (lines 152--264)\<close>

text \<open>
  Standard output is the list of the items written to it: a string, a tab, a slash, a
  \<open>double\<close>, an unsigned count, or the end of a line.
\<close>

datatype token = Str string | Tab | Slash | Num real | Cnt nat | Endl

fun writePairs :: "Sketch \<Rightarrow> nat \<Rightarrow> bool \<Rightarrow> nat \<Rightarrow> PairOutput list \<Rightarrow> token list option" where
  "writePairs sk i table j [] = Some []"
| "writePairs sk i table j (pair # rest) =
     (if table then
        (case writePairs sk i table (max j (index pair)) rest of
           None \<Rightarrow> None
         | Some out \<Rightarrow> Some (replicate (index pair - j) Tab @ [Tab, Num (distance pair)] @ out))
      else
        (case getReference sk i of
           None \<Rightarrow> None
         | Some a \<Rightarrow>
            (case getReference sk (index pair) of
               None \<Rightarrow> None
             | Some b \<Rightarrow>
                (case writePairs sk i table j rest of
                   None \<Rightarrow> None
                 | Some out \<Rightarrow>
                    Some ([Str (name a), Tab, Str (name b), Tab, Num (distance pair), Tab,
                           Num (pValue pair), Tab, Cnt (numer pair), Slash, Cnt (denom pair),
                           Endl] @ out)))))"

definition writeOutput :: "PairwiseOutput \<Rightarrow> bool \<Rightarrow> token list option" where
  "writeOutput output table =
     (if table then
        (case getReference (sketch_out output) (index_out output) of
           None \<Rightarrow> None
         | Some q \<Rightarrow>
            (case writePairs (sketch_out output) (index_out output) table 0 (pairs output) of
               None \<Rightarrow> None
             | Some out \<Rightarrow> Some ([Str (name q), Tab] @ out @ [Endl])))
      else writePairs (sketch_out output) (index_out output) table 0 (pairs output))"

definition tableHeader :: "Sketch \<Rightarrow> token list" where
  "tableHeader sk =
     Str ''#query'' # concat (map (\<lambda>r. [Tab, Str (name r)]) (references sk)) @ [Endl]"

text \<open>
  The model of \<open>run\<close> starts where the collection has been loaded (line 152): the
  header of the matrix, then the rounds.  The two sketch objects of the source are
  loaded from the same file and are one collection here.  The worker pool hands every
  submitted query to \<open>search\<close> once and every result to \<open>writeOutput\<close> once; the
  model runs the queries of a round one after the other, in the order of submission.
\<close>

fun runQueries ::
  "pValue_fn \<Rightarrow> Sketch \<Rightarrow> real \<Rightarrow> real \<Rightarrow> HashTable \<Rightarrow> u64 \<Rightarrow> bool \<Rightarrow> nat list
   \<Rightarrow> token list option" where
  "runQueries pv sk distanceMax pValueMax t n table [] = Some []"
| "runQueries pv sk distanceMax pValueMax t n table (j # js) =
     (case search pv \<lparr>sketch_in = sk, index_in = j, maxDistance = distanceMax,
                      maxPValue = pValueMax, hashTable = t, hashTableSize_in = n\<rparr> of
        None \<Rightarrow> None
      | Some output \<Rightarrow>
         (case writeOutput output table of
            None \<Rightarrow> None
          | Some w \<Rightarrow>
             (case runQueries pv sk distanceMax pValueMax t n table js of
                None \<Rightarrow> None
              | Some rest \<Rightarrow> Some (w @ rest))))"

fun runRounds ::
  "pValue_fn \<Rightarrow> Sketch \<Rightarrow> real \<Rightarrow> real \<Rightarrow> bool \<Rightarrow> (u64 \<times> u64) list \<Rightarrow> token list option" where
  "runRounds pv sk distanceMax pValueMax table [] = Some []"
| "runRounds pv sk distanceMax pValueMax table ((start, end) # rounds) =
     (case fillHashTable sk Map.empty hashTableSize (unat start) (unat end) of
        None \<Rightarrow> None
      | Some (t, n) \<Rightarrow>
         (case runQueries pv sk distanceMax pValueMax t hashTableSize table [1..<unat end] of
            None \<Rightarrow> None
          | Some out \<Rightarrow>
             (case runRounds pv sk distanceMax pValueMax table rounds of
                None \<Rightarrow> None
              | Some rest \<Rightarrow> Some (out @ rest))))"

definition run :: "pValue_fn \<Rightarrow> Sketch \<Rightarrow> bool \<Rightarrow> real \<Rightarrow> real \<Rightarrow> token list option" where
  "run pv sk table distanceMax pValueMax =
     (case runRounds pv sk distanceMax pValueMax table
             (roundRanges (getReferenceCount sk) (minHashesPerWindow sk) hashTableSize) of
        None \<Rightarrow> None
      | Some out \<Rightarrow> Some ((if table then tableHeader sk else []) @ out))"

subsection \<open>The matrix row, in the words of the specification\<close>

text \<open>
  One row per query: the name of the query, then one tab-separated cell per reference
  index below the query, blank where no pair was accepted and holding the raw distance
  where one was.
\<close>

definition matrixRow :: "string \<Rightarrow> nat \<Rightarrow> (nat \<Rightarrow> real option) \<Rightarrow> token list" where
  "matrixRow qname q accepted =
     Str qname
     # concat (map (\<lambda>r. Tab # (case accepted r of None \<Rightarrow> [] | Some d \<Rightarrow> [Num d])) [0..<q])
     @ [Endl]"

section \<open>Auxiliary notions and a small collection\<close>

text \<open>The indices that sketch \<open>k\<close> contributes to the list of hash \<open>h\<close>: one copy of
  \<open>k\<close> for every occurrence of \<open>h\<close> in its hash list.\<close>

definition occurrences :: "Sketch \<Rightarrow> u64 \<Rightarrow> nat \<Rightarrow> nat list" where
  "occurrences sk h k = replicate (count_list (hashesSorted (references sk ! k)) h) k"

text \<open>
  Four protein sequences of ten residues, sketched with \<open>k = 9\<close>: \<open>a\<close>, \<open>c\<close> and \<open>d\<close>
  have the same two hashes, \<open>b\<close> has two others.  The second collection is the same
  with a sketch capacity of \<open>2^26\<close>, which makes four rounds of one reference.
\<close>

definition demoSketch :: Sketch where
  "demoSketch =
     \<lparr>references =
        [\<lparr>name = ''a'', length_ref = 10, hashesSorted = [1, 5]\<rparr>,
         \<lparr>name = ''b'', length_ref = 10, hashesSorted = [2, 7]\<rparr>,
         \<lparr>name = ''c'', length_ref = 10, hashesSorted = [1, 5]\<rparr>,
         \<lparr>name = ''d'', length_ref = 10, hashesSorted = [1, 5]\<rparr>],
      kmerSize = 9, minHashesPerWindow = 2, kmerSpace = 512000000000\<rparr>"

definition demoSketchWide :: Sketch where
  "demoSketchWide = demoSketch\<lparr>minHashesPerWindow := 67108864\<rparr>"

section \<open>Facts about words\<close>

lemma unat_quot:
  assumes "unat R * unat S < 2 ^ 64"
  shows "unat (R * S div B div 2 :: u64) = unat R * unat S div unat B div 2"
proof -
  have "unat (R * S) = unat R * unat S"
    using assms by (simp add: unat_word_ariths)
  then show ?thesis by (simp add: unat_div)
qed

lemma sint_ucast_small:
  assumes "unat (w :: u64) < 2 ^ 31"
  shows "sint (ucast w :: i32) = int (unat w)"
proof -
  have "int (unat w) < int (2 ^ 31)"
    using assms by (rule iffD2 [OF of_nat_less_iff])
  then have "uint w < 2 ^ 31"
    by (simp only: uint_nat of_nat_power of_nat_numeral)
  then have "signed_take_bit 31 (uint w) = uint w"
    by (intro signed_take_bit_int_eq_self) (simp_all add: order_trans[of _ 0])
  then show ?thesis
    by (simp add: signed_ucast_eq)
qed

lemma unat_scast_nonneg:
  assumes "0 \<le> sint (r :: i32)"
  shows "unat (scast r :: u64) = nat (sint r)"
proof -
  have "sint r < 2 ^ 31"
    using sint_lt [of r] by simp
  then have "take_bit 64 (sint r) = sint r"
    using assms by (simp add: take_bit_int_eq_self)
  then have "uint (scast r :: u64) = sint r"
    by (simp add: uint_sint sint_up_scast is_up)
  then show ?thesis
    by (simp only: unat_eq_nat_uint)
qed

lemma roundCount_val:
  assumes "unat R * unat S < 2 ^ 64"
    and "unat R * unat S div unat B div 2 < 2 ^ 31"
  shows "sint (roundCount R S B) = max 1 (int (unat R * unat S div unat B div 2))"
proof -
  let ?w = "R * S div B div 2"
  have q: "unat ?w = unat R * unat S div unat B div 2"
    using assms(1) by (rule unat_quot)
  then have s: "sint (ucast ?w :: i32) = int (unat ?w)"
    using assms(2) by (simp add: sint_ucast_small)
  show ?thesis
  proof (cases "(ucast ?w :: i32) = 0")
    case True
    then have "int (unat ?w) = 0" using s by simp
    then have "unat ?w = 0" by (simp only: of_nat_eq_0_iff)
    with True q show ?thesis by (simp add: roundCount_def)
  next
    case False
    then have "unat ?w \<noteq> 0" by (auto simp: unat_eq_0)
    with False q s show ?thesis by (simp add: roundCount_def Let_def)
  qed
qed

lemma roundSize_val:
  assumes "0 \<le> sint rounds"
  shows "unat (roundSize R rounds) = unat R div nat (sint rounds)"
  using assms by (simp add: roundSize_def unat_div unat_scast_nonneg)

text \<open>
  While the arithmetic stays in range, round \<open>i\<close> is
  \<open>[i * roundSize, (i + 1) * roundSize)\<close>: the rounds follow each other without a gap
  or an overlap, the clamp to the reference count never applies, and together they
  cover exactly the indices below \<open>rounds * roundSize\<close>.
\<close>

lemma scast_of_nat_small:
  assumes "i < 2 ^ 31"
  shows "(scast (of_nat i :: i32) :: u64) = of_nat i"
proof -
  have "sint (of_nat i :: i32) = int i"
    using assms by (simp add: signed_of_nat signed_take_bit_int_eq_self)
  then have "0 \<le> sint (of_nat i :: i32)" by simp
  then have "unat (scast (of_nat i :: i32) :: u64) = i"
    using \<open>sint (of_nat i :: i32) = int i\<close> by (simp add: unat_scast_nonneg)
  then show ?thesis
    by (metis of_nat_unat ucast_id)
qed

lemma unat_of_nat_mult:
  assumes "i * unat (w :: u64) < 2 ^ 64"
  shows "unat (of_nat i * w) = i * unat w"
proof (cases "unat w = 0")
  case True
  then have "w = 0" by (simp add: unat_eq_0)
  then show ?thesis by simp
next
  case False
  then have "i \<le> i * unat w" by simp
  then have i: "i < 2 ^ 64" using assms by linarith
  then have "unat (of_nat i :: u64) = i"
    by (simp add: unat_of_nat)
  then show ?thesis
    using assms by (simp add: unat_word_ariths)
qed

lemma roundRange_in_range:
  assumes "Suc i < 2 ^ 31" and "Suc i * unat rs \<le> unat R"
  shows "roundRange R rs (of_nat i) = (of_nat i * rs, of_nat (Suc i) * rs)"
    and "unat (of_nat i * rs :: u64) = i * unat rs"
    and "unat (of_nat (Suc i) * rs :: u64) = Suc i * unat rs"
proof -
  have lt: "unat R < 2 ^ 64" using unsigned_less [of R] by simp
  have a: "i * unat rs < 2 ^ 64" and b: "Suc i * unat rs < 2 ^ 64"
    using assms(2) lt by simp_all
  show u1: "unat (of_nat i * rs :: u64) = i * unat rs"
    using a by (rule unat_of_nat_mult)
  show u2: "unat (of_nat (Suc i) * rs :: u64) = Suc i * unat rs"
    using b by (rule unat_of_nat_mult)
  have s1: "(scast (of_nat i :: i32) :: u64) = of_nat i"
    using assms(1) by (intro scast_of_nat_small) simp
  have s2: "(scast (of_nat i + 1 :: i32) :: u64) = of_nat (Suc i)"
    using scast_of_nat_small [OF assms(1)] by (simp add: add.commute)
  have "\<not> R < of_nat (Suc i) * rs"
    using u2 assms(2) by (simp add: word_less_nat_alt)
  then show "roundRange R rs (of_nat i) = (of_nat i * rs, of_nat (Suc i) * rs)"
    by (simp add: roundRange_def Let_def s1 s2)
qed

lemma roundRanges_in_range:
  assumes "unat R * unat S < 2 ^ 64"
    and "unat R * unat S div unat B div 2 < 2 ^ 31"
  shows "roundRanges R S B
     = map (\<lambda>i. (of_nat i * roundSize R (roundCount R S B),
                  of_nat (Suc i) * roundSize R (roundCount R S B)))
         [0..<nat (sint (roundCount R S B))]"
proof -
  let ?n = "nat (sint (roundCount R S B))"
  let ?rs = "roundSize R (roundCount R S B)"
  have v: "sint (roundCount R S B) = max 1 (int (unat R * unat S div unat B div 2))"
    using assms by (rule roundCount_val)
  then have n: "?n < 2 ^ 31" "0 \<le> sint (roundCount R S B)"
    using assms(2) by auto
  have rs: "unat ?rs = unat R div ?n"
    using n(2) by (rule roundSize_val)
  have "roundRange R ?rs (of_nat i) = (of_nat i * ?rs, of_nat (Suc i) * ?rs)" if "i < ?n" for i
  proof -
    have "Suc i * unat ?rs \<le> ?n * (unat R div ?n)"
      using that by (simp add: rs Suc_leI mult_le_mono1 del: mult_Suc)
    also have "\<dots> \<le> unat R" by simp
    finally have "Suc i * unat ?rs \<le> unat R" .
    moreover have "Suc i < 2 ^ 31" using that n(1) by linarith
    ultimately show ?thesis by (intro roundRange_in_range(1))
  qed
  then show ?thesis
    by (simp add: roundRanges_def Let_def)
qed

lemma roundRanges_cover:
  assumes "unat R * unat S < 2 ^ 64"
    and "unat R * unat S div unat B div 2 < 2 ^ 31"
  shows "covered (roundRanges R S B) x
     \<longleftrightarrow> unat x < nat (sint (roundCount R S B)) * unat (roundSize R (roundCount R S B))"
proof -
  let ?n = "nat (sint (roundCount R S B))"
  let ?rs = "roundSize R (roundCount R S B)"
  have v: "sint (roundCount R S B) = max 1 (int (unat R * unat S div unat B div 2))"
    using assms by (rule roundCount_val)
  then have n: "?n < 2 ^ 31" "0 \<le> sint (roundCount R S B)"
    using assms(2) by auto
  have rs: "unat ?rs = unat R div ?n"
    using n(2) by (rule roundSize_val)
  have b: "Suc i < 2 ^ 31 \<and> Suc i * unat ?rs \<le> unat R" if "i < ?n" for i
  proof -
    have "Suc i * unat ?rs \<le> ?n * (unat R div ?n)"
      using that by (simp add: rs Suc_leI mult_le_mono1 del: mult_Suc)
    also have "\<dots> \<le> unat R" by simp
    finally have "Suc i * unat ?rs \<le> unat R" .
    moreover have "Suc i < 2 ^ 31" using that n(1) by linarith
    ultimately show ?thesis by simp
  qed
  have c: "covered (roundRanges R S B) x
     \<longleftrightarrow> (\<exists>i < ?n. i * unat ?rs \<le> unat x \<and> unat x < Suc i * unat ?rs)"
  proof -
    have "covered (roundRanges R S B) x
       \<longleftrightarrow> (\<exists>i < ?n. of_nat i * ?rs \<le> x \<and> x < of_nat (Suc i) * ?rs)"
      unfolding roundRanges_in_range [OF assms]
      by (auto simp: covered_def inRound_def list_ex_iff)
    also have "\<dots> \<longleftrightarrow> (\<exists>i < ?n. i * unat ?rs \<le> unat x \<and> unat x < Suc i * unat ?rs)"
      using b roundRange_in_range(2,3) [of _ ?rs R]
      by (metis word_le_nat_alt word_less_nat_alt)
    finally show ?thesis .
  qed
  show ?thesis
  proof
    assume "covered (roundRanges R S B) x"
    then obtain i where i: "i < ?n" "unat x < Suc i * unat ?rs"
      using c by blast
    then have "Suc i * unat ?rs \<le> ?n * unat ?rs"
      by (simp add: Suc_leI mult_le_mono1 del: mult_Suc)
    with i(2) show "unat x < ?n * unat ?rs" by linarith
  next
    assume a: "unat x < ?n * unat ?rs"
    then have p: "0 < unat ?rs" by (cases "unat ?rs") simp_all
    let ?i = "unat x div unat ?rs"
    have "?i < ?n"
      using a p by (simp add: less_mult_imp_div_less)
    moreover have "?i * unat ?rs \<le> unat x"
      by simp
    moreover have "unat x < Suc ?i * unat ?rs"
      using p by (simp add: dividend_less_div_times add.commute)
    ultimately show "covered (roundRanges R S B) x"
      using c by blast
  qed
qed

section \<open>Round partitioning: results\<close>

text \<open>
  C1.  The claim: for every reference count, the round ranges are contiguous, do not
  overlap and their union is \<open>[0, R)\<close>, the last round absorbing the remainder of the
  division through the clamp.  The code is evaluated at \<open>R = 335545\<close> references of
  sketch capacity \<open>400\<close>: it makes two rounds of \<open>167772\<close> references each, which end
  at \<open>335544\<close>; the clamp never applies and the reference with index \<open>335544\<close> is in
  no round.
\<close>

theorem roundRanges_drop_remainder:
  "roundRanges 335545 400 hashTableSize = [(0, 167772), (167772, 335544)]
   \<and> (335544 :: u64) < 335545
   \<and> \<not> covered (roundRanges 335545 400 hashTableSize) 335544"
  by (simp add: roundRanges_def roundCount_def hashTableSize_def roundSize_def
      roundRange_def Let_def upt_conv_Cons covered_def inRound_def)

text \<open>
  C7.  As long as the product \<open>R * S\<close> fits 64 bits and the quotient fits the
  \<open>int\<close> that receives it, the round count is \<open>max(1, floor(R*S / B / 2))\<close>, it is at
  least one, and the round size is \<open>floor(R / rounds)\<close>, a division by a non-zero
  count.
\<close>

theorem roundCount_roundSize_in_range:
  assumes "unat R * unat S < 2 ^ 64"
    and "unat R * unat S div unat B div 2 < 2 ^ 31"
    and "B \<noteq> 0"
  shows "sint (roundCount R S B) = max 1 (int (unat R * unat S div unat B div 2))
         \<and> 1 \<le> sint (roundCount R S B)
         \<and> unat (roundSize R (roundCount R S B)) = unat R div nat (sint (roundCount R S B))"
proof -
  have v: "sint (roundCount R S B) = max 1 (int (unat R * unat S div unat B div 2))"
    using assms(1,2) by (rule roundCount_val)
  then have p: "1 \<le> sint (roundCount R S B)"
    by simp
  then have "0 \<le> sint (roundCount R S B)"
    by simp
  then have "unat (roundSize R (roundCount R S B)) = unat R div nat (sint (roundCount R S B))"
    by (rule roundSize_val)
  with v p show ?thesis by simp
qed

theorem roundCount_roundSize_in_range_witness:
  "unat (1000 :: u64) * unat (400 :: u64) < 2 ^ 64
   \<and> unat (1000 :: u64) * unat (400 :: u64) div unat hashTableSize div 2 < 2 ^ 31
   \<and> hashTableSize \<noteq> 0
   \<and> sint (roundCount 1000 400 hashTableSize) = 1
   \<and> unat (roundSize 1000 (roundCount 1000 400 hashTableSize)) = 1000"
  using roundCount_roundSize_in_range [of 1000 400 hashTableSize]
  by (simp add: hashTableSize_def)

text \<open>
  Outside that range the formula is not what the code computes: with \<open>2^26\<close>
  references of capacity \<open>2^31\<close> the quotient is \<open>2^31\<close>, which the \<open>int\<close> that
  receives it cannot hold; the count the code goes on with is negative, the round
  size is zero and the round loop runs no iteration.
\<close>

theorem roundCount_wraps_counterexample:
  "sint (roundCount 67108864 2147483648 hashTableSize)
   \<noteq> max 1 (int (unat (67108864 :: u64) * unat (2147483648 :: u64)
                   div unat hashTableSize div 2))"
  by (simp add: roundCount_def hashTableSize_def)

section \<open>The pair estimator: the merge refines the specified walk\<close>

lemma specWalk_stop:
  assumes "\<not> (d < s \<and> i < length ref \<and> j < length qry)"
  shows "specWalk s (drop i ref) (drop j qry) c d = (drop i ref, drop j qry, c, d)"
proof (cases "drop i ref")
  case Nil
  then show ?thesis by simp
next
  case ref_cons: (Cons a as)
  show ?thesis
  proof (cases "drop j qry")
    case Nil
    then show ?thesis by (simp add: ref_cons)
  next
    case (Cons b bs)
    have "i < length ref" using ref_cons by (cases "i < length ref") simp_all
    moreover have "j < length qry" using Cons by (cases "j < length qry") simp_all
    ultimately have "\<not> d < s" using assms by simp
    then show ?thesis by (simp add: ref_cons Cons)
  qed
qed

lemma mergeLoop_refines:
  "\<exists>i' j' c' d'. mergeLoop ref qry s i j c d = Some (i', j', c', d')
     \<and> specWalk s (drop i ref) (drop j qry) c d = (drop i' ref, drop j' qry, c', d')
     \<and> (c \<le> d \<longrightarrow> c' \<le> d') \<and> (d \<le> s \<longrightarrow> d' \<le> s)"
proof (induction "(length ref - i) + (length qry - j)" arbitrary: i j c d rule: less_induct)
  case less
  show ?case
  proof (cases "d < s \<and> i < length ref \<and> j < length qry")
    case False
    have "mergeLoop ref qry s i j c d = Some (i, j, c, d)"
      by (subst mergeLoop.simps) (simp only: False if_False)
    with specWalk_stop [OF False] show ?thesis by simp
  next
    case True
    then have di: "drop i ref = ref ! i # drop (Suc i) ref"
      and dj: "drop j qry = qry ! j # drop (Suc j) qry"
      by (simp_all add: Cons_nth_drop_Suc)
    have at: "at_hl ref i = Some (ref ! i)" "at_hl qry j = Some (qry ! j)"
      using True by (simp_all add: at_hl_def)
    consider (lt) "ref ! i < qry ! j"
      | (gt) "\<not> ref ! i < qry ! j" "qry ! j < ref ! i"
      | (eq) "\<not> ref ! i < qry ! j" "\<not> qry ! j < ref ! i"
      by blast
    then show ?thesis
    proof cases
      case lt
      have m: "(length ref - Suc i) + (length qry - j) < (length ref - i) + (length qry - j)"
        using True by linarith
      have u: "mergeLoop ref qry s i j c d = mergeLoop ref qry s (Suc i) j c (Suc d)"
        using True lt by (subst mergeLoop.simps) (simp add: at hashLessThan_def)
      have w: "specWalk s (drop i ref) (drop j qry) c d
               = specWalk s (drop (Suc i) ref) (drop j qry) c (Suc d)"
        using True lt by (simp add: di) (simp add: dj)
      from less [OF m, of c "Suc d"] u w True show ?thesis
        by auto
    next
      case gt
      have m: "(length ref - i) + (length qry - Suc j) < (length ref - i) + (length qry - j)"
        using True by linarith
      have u: "mergeLoop ref qry s i j c d = mergeLoop ref qry s i (Suc j) c (Suc d)"
        using True gt by (subst mergeLoop.simps) (simp add: at hashLessThan_def)
      have w: "specWalk s (drop i ref) (drop j qry) c d
               = specWalk s (drop i ref) (drop (Suc j) qry) c (Suc d)"
        using True gt by (simp add: dj) (simp add: di)
      from less [OF m, of c "Suc d"] u w True show ?thesis
        by auto
    next
      case eq
      have m: "(length ref - Suc i) + (length qry - Suc j) < (length ref - i) + (length qry - j)"
        using True by linarith
      have u: "mergeLoop ref qry s i j c d = mergeLoop ref qry s (Suc i) (Suc j) (Suc c) (Suc d)"
        using True eq by (subst mergeLoop.simps) (simp add: at hashLessThan_def)
      have w: "specWalk s (drop i ref) (drop j qry) c d
               = specWalk s (drop (Suc i) ref) (drop (Suc j) qry) (Suc c) (Suc d)"
        using True eq by (simp add: di dj)
      from less [OF m, of "Suc c" "Suc d"] u w True show ?thesis
        by auto
    qed
  qed
qed

lemma completeUnion_min:
  "completeUnion ref qry s i j d
   = (if d < s then min s (d + length (drop i ref) + length (drop j qry)) else d)"
  by (auto simp: completeUnion_def Let_def min_def)

lemma sketchCounts_spec: "sketchCounts ref qry s = Some (specCounts s ref qry)"
proof -
  obtain i' j' c' d' where
    "mergeLoop ref qry s 0 0 0 0 = Some (i', j', c', d')"
    "specWalk s (drop 0 ref) (drop 0 qry) 0 0 = (drop i' ref, drop j' qry, c', d')"
    using mergeLoop_refines [of ref qry s 0 0 0 0] by blast
  then show ?thesis
    by (simp add: sketchCounts_def specCounts_def completeUnion_min)
qed

lemma sketchCounts_bounds:
  assumes "sketchCounts ref qry s = Some (common, den)"
  shows "common \<le> den \<and> den \<le> s"
proof -
  obtain i' j' c' d' where m:
    "mergeLoop ref qry s 0 0 0 0 = Some (i', j', c', d')" "c' \<le> d'" "d' \<le> s"
    using mergeLoop_refines [of ref qry s 0 0 0 0] by auto
  with assms show ?thesis
    by (auto simp: sketchCounts_def completeUnion_min min_def)
qed

lemma specWalk_same:
  "specWalk s xs xs c d = (as, bs, c', d') \<Longrightarrow>
     c' + d = d' + c \<and> (d' < s \<longrightarrow> as = [] \<and> bs = [])"
proof (induction xs arbitrary: c d)
  case Nil
  then show ?case by simp
next
  case (Cons x xs)
  show ?case
  proof (cases "d < s")
    case True
    with Cons.prems have "specWalk s xs xs (c + 1) (d + 1) = (as, bs, c', d')"
      by simp
    from Cons.IH [OF this] show ?thesis by simp
  next
    case False
    with Cons.prems show ?thesis by auto
  qed
qed

lemma specCounts_same: "\<exists>n. specCounts s xs xs = (n, n)"
proof -
  obtain as bs c' d' where w: "specWalk s xs xs 0 0 = (as, bs, c', d')"
    by (metis prod_cases4)
  from specWalk_same [OF w] have "c' = d'" "d' < s \<longrightarrow> as = [] \<and> bs = []"
    by simp_all
  with w show ?thesis
    by (auto simp: specCounts_def)
qed

lemma same_hash_sets:
  assumes "sorted ref" "distinct ref" "sorted qry" "distinct qry" "set ref = set qry"
  shows "ref = qry"
  using assms by (simp add: sorted_distinct_set_unique)

lemma compareSketches_unfold:
  assumes "sketchCounts (hashesSorted refRef) (hashesSorted refQry) sketchSize = Some (common, den)"
  shows "compareSketches pv output refRef refQry sketchSize k kSpace maxDist maxPVal =
     (if distanceOf common den k > maxDist \<or> distanceOf common den k = 1
      then Some (False, output)
      else Some (pv common (length_ref refRef) (length_ref refQry) kSpace den \<le> maxPVal,
                 output\<lparr>numer := common, denom := den, distance := distanceOf common den k,
                        pValue := pv common (length_ref refRef) (length_ref refQry) kSpace den\<rparr>))"
  using assms by (simp add: compareSketches_def Let_def)

lemma compareSketches_returns:
  "\<exists>r. compareSketches pv output refRef refQry s k ks maxD maxP = Some r"
  by (cases "specCounts s (hashesSorted refRef) (hashesSorted refQry)")
    (auto simp: compareSketches_def sketchCounts_spec Let_def)

lemma sketchCounts_empty: "sketchCounts [] [] sketchSize = Some (0, 0)"
  by (simp add: sketchCounts_def completeUnion_def)

lemma sketchCounts_1234: "sketchCounts [1, 2, 3, 4] [1, 2, 3, 4] 4 = Some (4, 4)"
  by code_simp

section \<open>The pair estimator: results\<close>

text \<open>
  C2.  For every pair of hash lists (ascending or not) and every sketch size, the
  estimator returns from the merge, and the pair \<open>(common, denom)\<close> it holds is the
  one of the bounded sorted merge as the specification words it: the walk that counts
  every step and stops at the sketch size or at the end of a list, completed by the
  unconsumed lengths and clamped to the sketch size.  Consequently
  \<open>0 \<le> common \<le> denom \<le> sketchSize\<close>.
\<close>

theorem sketchCounts_bounded_merge:
  "\<exists>common den. sketchCounts ref qry sketchSize = Some (common, den)
     \<and> (common, den) = specCounts sketchSize ref qry
     \<and> 0 \<le> common \<and> common \<le> den \<and> den \<le> sketchSize"
proof -
  obtain common den where c: "specCounts sketchSize ref qry = (common, den)"
    by (cases "specCounts sketchSize ref qry")
  then have s: "sketchCounts ref qry sketchSize = Some (common, den)"
    by (simp add: sketchCounts_spec)
  from sketchCounts_bounds [OF s] c s show ?thesis by simp
qed

text \<open>
  C3.  For every compared pair the distance computed from \<open>(common, denom)\<close> is, the
  cases being tried in the order written, exactly \<open>0\<close> when \<open>common = denom\<close>,
  exactly \<open>1\<close> when \<open>common = 0\<close>, and \<open>-ln(2j/(1+j))/k\<close> with \<open>j = common/denom\<close>
  otherwise.  Two sketches with the same set of hashes (their lists ascending and free
  of duplicates) have \<open>common = denom\<close> and the distance \<open>0\<close>.
\<close>

theorem distance_by_cases:
  "\<exists>common den. sketchCounts ref qry sketchSize = Some (common, den)
     \<and> distanceOf common den k =
         (if common = den then 0
          else if common = 0 then 1
          else - ln (2 * (real common / real den) / (1 + real common / real den))
               / real_of_int k)
     \<and> (sorted ref \<and> distinct ref \<and> sorted qry \<and> distinct qry \<and> set ref = set qry
          \<longrightarrow> common = den \<and> distanceOf common den k = 0)"
proof -
  obtain common den where s: "sketchCounts ref qry sketchSize = Some (common, den)"
    by (cases "specCounts sketchSize ref qry") (simp add: sketchCounts_spec)
  have d: "distanceOf common den k =
         (if common = den then 0
          else if common = 0 then 1
          else - ln (2 * (real common / real den) / (1 + real common / real den))
               / real_of_int k)"
    by (simp add: distanceOf_def Let_def)
  have "common = den"
    if "sorted ref \<and> distinct ref \<and> sorted qry \<and> distinct qry \<and> set ref = set qry"
  proof -
    from that have "ref = qry" by (simp add: same_hash_sets)
    then show ?thesis
      using s specCounts_same [of sketchSize qry] by (auto simp: sketchCounts_spec)
  qed
  with s d show ?thesis by auto
qed

theorem distance_by_cases_witness:
  "sorted [1, 2, 3, 4 :: hash_u] \<and> distinct [1, 2, 3, 4 :: hash_u]
   \<and> set [1, 2, 3, 4 :: hash_u] = set [1, 2, 3, 4 :: hash_u]
   \<and> sketchCounts [1, 2, 3, 4] [1, 2, 3, 4] 4 = Some (4, 4)
   \<and> distanceOf 4 4 9 = 0"
  using distance_by_cases [of "[1, 2, 3, 4]" "[1, 2, 3, 4]" 4 9] sketchCounts_1234
  by simp

text \<open>
  C4.  The estimator returns no-match exactly when the distance exceeds
  \<open>maxDistance\<close>, or the distance is \<open>1\<close>, or the p-value exceeds \<open>maxPValue\<close>; on
  acceptance the pair output is the one it was given with exactly \<open>common\<close>,
  \<open>denom\<close>, the distance and the p-value written into it.
\<close>

theorem compareSketches_verdict:
  "\<exists>common den hit output'.
     sketchCounts (hashesSorted refRef) (hashesSorted refQry) sketchSize = Some (common, den)
     \<and> compareSketches pv output refRef refQry sketchSize k kSpace maxDist maxPVal
         = Some (hit, output')
     \<and> (\<not> hit \<longleftrightarrow>
          distanceOf common den k > maxDist \<or> distanceOf common den k = 1
          \<or> pv common (length_ref refRef) (length_ref refQry) kSpace den > maxPVal)
     \<and> (hit \<longrightarrow>
          output' = output\<lparr>numer := common, denom := den,
                           distance := distanceOf common den k,
                           pValue := pv common (length_ref refRef) (length_ref refQry)
                                       kSpace den\<rparr>)"
proof -
  obtain common den where
    s: "sketchCounts (hashesSorted refRef) (hashesSorted refQry) sketchSize = Some (common, den)"
    by (cases "specCounts sketchSize (hashesSorted refRef) (hashesSorted refQry)")
      (simp add: sketchCounts_spec)
  show ?thesis
    unfolding compareSketches_unfold [OF s] using s by auto
qed

theorem compareSketches_verdict_witness:
  "compareSketches (\<lambda>x lr lq ks n. 1 / 2) pair0
      \<lparr>name = ''a'', length_ref = 100, hashesSorted = [1, 2, 3, 4]\<rparr>
      \<lparr>name = ''b'', length_ref = 100, hashesSorted = [1, 2, 3, 4]\<rparr> 4 9 1000 1 1
   = Some (True, \<lparr>index = 0, numer = 4, denom = 4, distance = 0, pValue = 1 / 2\<rparr>)"
proof -
  have d: "distanceOf 4 4 9 = 0"
    by (simp add: distanceOf_def)
  show ?thesis
    using compareSketches_verdict
      [of "\<lparr>name = ''a'', length_ref = 100, hashesSorted = [1, 2, 3, 4]\<rparr>"
        "\<lparr>name = ''b'', length_ref = 100, hashesSorted = [1, 2, 3, 4]\<rparr>" 4
        "\<lambda>x lr lq ks n. 1 / 2" pair0 9 1000 1 1] sketchCounts_1234 d
    by (auto simp: pair0_def)
qed

text \<open>
  C10.  When both hash lists are empty the estimator returns: the merge leaves
  \<open>common = denom = 0\<close>, the distance is exactly \<open>0\<close> because the test
  \<open>common == denom\<close> comes first, and, the threshold \<open>maxDistance\<close> being a value of
  \<open>[0, 1]\<close>, the distance test does not reject the pair: the verdict is the one of the
  p-value test.  (The quotient \<open>0/0\<close> of line 439 is a floating-point division, which
  does not trap; its value is not used.)
\<close>

theorem compareSketches_empty_lists:
  assumes "hashesSorted refRef = []" and "hashesSorted refQry = []"
  shows "sketchCounts (hashesSorted refRef) (hashesSorted refQry) sketchSize = Some (0, 0)
     \<and> distanceOf 0 0 k = 0
     \<and> (\<exists>r. compareSketches pv output refRef refQry sketchSize k kSpace maxDist maxPVal
              = Some r)
     \<and> (0 \<le> maxDist \<longrightarrow>
          compareSketches pv output refRef refQry sketchSize k kSpace maxDist maxPVal
          = Some (pv 0 (length_ref refRef) (length_ref refQry) kSpace 0 \<le> maxPVal,
                  output\<lparr>numer := 0, denom := 0, distance := 0,
                         pValue := pv 0 (length_ref refRef) (length_ref refQry) kSpace 0\<rparr>))"
proof -
  have s: "sketchCounts (hashesSorted refRef) (hashesSorted refQry) sketchSize = Some (0, 0)"
    using assms by (simp add: sketchCounts_empty)
  have d: "distanceOf 0 0 k = 0"
    by (simp add: distanceOf_def)
  have r: "\<exists>r. compareSketches pv output refRef refQry sketchSize k kSpace maxDist maxPVal
              = Some r"
    by (rule compareSketches_returns)
  have "0 \<le> maxDist \<longrightarrow>
          compareSketches pv output refRef refQry sketchSize k kSpace maxDist maxPVal
          = Some (pv 0 (length_ref refRef) (length_ref refQry) kSpace 0 \<le> maxPVal,
                  output\<lparr>numer := 0, denom := 0, distance := 0,
                         pValue := pv 0 (length_ref refRef) (length_ref refQry) kSpace 0\<rparr>)"
    unfolding compareSketches_unfold [OF s] using d by simp
  with s d r show ?thesis by blast
qed

theorem compareSketches_empty_lists_witness:
  "hashesSorted \<lparr>name = ''a'', length_ref = 0, hashesSorted = []\<rparr> = []
   \<and> hashesSorted \<lparr>name = ''b'', length_ref = 0, hashesSorted = []\<rparr> = []
   \<and> (0 :: real) \<le> 1
   \<and> compareSketches (\<lambda>x lr lq ks n. 1) pair0
      \<lparr>name = ''a'', length_ref = 0, hashesSorted = []\<rparr>
      \<lparr>name = ''b'', length_ref = 0, hashesSorted = []\<rparr> 400 9 1000 1 1
   = Some (True, \<lparr>index = 0, numer = 0, denom = 0, distance = 0, pValue = 1\<rparr>)"
  using compareSketches_empty_lists
    [where refRef = "\<lparr>name = ''a'', length_ref = 0, hashesSorted = []\<rparr>"
       and refQry = "\<lparr>name = ''b'', length_ref = 0, hashesSorted = []\<rparr>"
       and sketchSize = 400 and k = 9 and maxDist = 1 and pv = "\<lambda>x lr lq ks n. 1"
       and ?output = pair0 and kSpace = 1000 and maxPVal = 1]
  by (simp add: pair0_def)

section \<open>The inverted hash index: what \<open>fillHashTable\<close> builds\<close>

lemma entries_push_back_at:
  "entries (push_back_at t h i) h' = (if h' = h then entries t h @ [i] else entries t h')"
  by (simp add: push_back_at_def entries_def)

lemma entries_insertHashes:
  "entries (insertHashes t i hs) h = entries t h @ replicate (count_list hs h) i"
proof (induction hs arbitrary: t)
  case Nil
  then show ?case by simp
next
  case (Cons a hs)
  then show ?case
    by (simp add: entries_push_back_at replicate_app_Cons_same)
qed

lemma fillLoop_entries:
  assumes "e \<le> length (references sk)"
  shows "\<exists>t'. fillLoop sk t i e = Some t'
     \<and> (\<forall>h. entries t' h = entries t h @ concat (map (occurrences sk h) [i..<e]))"
  using assms
proof (induction "e - i" arbitrary: i t)
  case 0
  then have "fillLoop sk t i e = Some t"
    by (subst fillLoop.simps) simp
  with 0 show ?case by simp
next
  case (Suc n)
  then have lt: "i < e" by simp
  then have g: "getReference sk i = Some (references sk ! i)"
    using Suc.prems by (simp add: getReference_def)
  have u: "fillLoop sk t i e
           = fillLoop sk (insertHashes t i (hashesSorted (references sk ! i))) (Suc i) e"
    using lt g by (subst fillLoop.simps) simp
  have "n = e - Suc i" using Suc.hyps(2) by simp
  from Suc.hyps(1) [OF this Suc.prems, of "insertHashes t i (hashesSorted (references sk ! i))"]
  obtain t' where t': "fillLoop sk (insertHashes t i (hashesSorted (references sk ! i))) (Suc i) e = Some t'"
    "\<forall>h. entries t' h = entries (insertHashes t i (hashesSorted (references sk ! i))) h
          @ concat (map (occurrences sk h) [Suc i..<e])"
    by blast
  have "[i..<e] = i # [Suc i..<e]"
    using lt by (simp add: upt_conv_Cons)
  with t' u show ?case
    by (simp add: entries_insertHashes occurrences_def)
qed

lemma set_occurrences:
  "set (concat (map (occurrences sk h) [i..<e]))
   = {k. i \<le> k \<and> k < e \<and> h \<in> set (hashesSorted (references sk ! k))}"
  by (auto simp: occurrences_def count_list_0_iff)

lemma sorted_occurrences: "sorted (concat (map (occurrences sk h) [i..<e]))"
proof (induction e)
  case 0
  then show ?case by simp
next
  case (Suc e)
  show ?case
  proof (cases "i \<le> e")
    case True
    then show ?thesis
      using Suc by (auto simp: sorted_append set_occurrences occurrences_def)
  next
    case False
    then show ?thesis by simp
  qed
qed

lemma entries_touchSlots: "entries (touchSlots t n) h = entries t h"
  by (simp add: touchSlots_def entries_def)

lemma entries_empty: "entries Map.empty h = []"
  by (simp add: entries_def)

lemma fillHashTable_entries:
  assumes "e \<le> length (references sk)"
  shows "\<exists>t. fillHashTable sk Map.empty B start e = Some (t, B)
     \<and> (\<forall>h. entries t h = concat (map (occurrences sk h) [start..<e]))"
proof -
  from fillLoop_entries [OF assms, of Map.empty start]
  obtain t' where "fillLoop sk Map.empty start e = Some t'"
    "\<forall>h. entries t' h = concat (map (occurrences sk h) [start..<e])"
    by (auto simp: entries_empty)
  then show ?thesis
    by (simp add: fillHashTable_def entries_touchSlots)
qed

lemma demo_fill:
  "(case fillHashTable demoSketch Map.empty hashTableSize 0 4 of
      None \<Rightarrow> None
    | Some (t, n) \<Rightarrow> Some (map (entries t) [1, 2, 5, 7, 9], n = hashTableSize))
   = Some ([[0, 2, 3], [1], [0, 2, 3], [1], []], True)"
  by code_simp

lemma demo_targets:
  "(case fillHashTable demoSketch Map.empty hashTableSize 0 4 of
      None \<Rightarrow> None
    | Some (t, n) \<Rightarrow> Some (searchTargets t 3 (references demoSketch ! 3)))
   = Some [0, 2]"
  by code_simp

lemma demo_counts: "sketchCounts [1, 5] [1, 5] 2 = Some (2, 2)"
  by code_simp

text \<open>
  C6.  After \<open>fillHashTable\<close> has run over the round \<open>[start, end)\<close> of a collection
  that holds at least \<open>end\<close> sketches, starting from the empty table of the round: for
  every hash value \<open>h\<close> the list of \<open>h\<close> holds a sketch index \<open>i\<close> exactly when
  \<open>start \<le> i < end\<close> and \<open>h\<close> occurs in the hash list of sketch \<open>i\<close>, and every list
  is in ascending order of sketch index.
\<close>

theorem fillHashTable_index:
  assumes "end \<le> length (references sk)"
  shows "\<exists>t. fillHashTable sk Map.empty B start end = Some (t, B)
     \<and> (\<forall>h i. i \<in> set (entries t h)
            \<longleftrightarrow> start \<le> i \<and> i < end \<and> h \<in> set (hashesSorted (references sk ! i)))
     \<and> (\<forall>h. sorted (entries t h))"
proof -
  from fillHashTable_entries [OF assms, of B start]
  obtain t where t: "fillHashTable sk Map.empty B start end = Some (t, B)"
    "\<forall>h. entries t h = concat (map (occurrences sk h) [start..<end])"
    by blast
  have "\<forall>h i. i \<in> set (entries t h)
            \<longleftrightarrow> start \<le> i \<and> i < end \<and> h \<in> set (hashesSorted (references sk ! i))"
    by (simp only: t(2) set_occurrences mem_Collect_eq simp_thms)
  moreover have "\<forall>h. sorted (entries t h)"
    using t(2) by (simp add: sorted_occurrences)
  ultimately show ?thesis using t(1) by blast
qed

theorem fillHashTable_index_witness:
  "4 \<le> length (references demoSketch)
   \<and> (\<exists>t. fillHashTable demoSketch Map.empty hashTableSize 0 4 = Some (t, hashTableSize)
        \<and> map (entries t) [1, 2, 5, 7, 9] = [[0, 2, 3], [1], [0, 2, 3], [1], []]
        \<and> (\<forall>h. sorted (entries t h)))"
proof -
  have l: "4 \<le> length (references demoSketch)"
    by (simp add: demoSketch_def)
  from fillHashTable_index [OF l, of hashTableSize 0] demo_fill l show ?thesis
    by auto
qed

section \<open>The candidate generator: what \<open>search\<close> scores\<close>

lemma probeIndeces_set:
  "set (probeIndeces q l ts) = set ts \<union> {i \<in> set l. i < q}"
  by (induction l arbitrary: ts) (auto simp: set_insort_insert)

lemma probeIndeces_sorted:
  "sorted ts \<Longrightarrow> distinct ts \<Longrightarrow> sorted (probeIndeces q l ts) \<and> distinct (probeIndeces q l ts)"
  by (induction l arbitrary: ts) (auto simp: sorted_insort_insert distinct_insort_insert)

lemma probeHashes_set:
  "set (probeHashes t q hs ts) = set ts \<union> {i. i < q \<and> (\<exists>h \<in> set hs. i \<in> set (entries t h))}"
proof (induction hs arbitrary: ts)
  case Nil
  then show ?case by simp
next
  case (Cons row rows)
  show ?case
  proof (cases "t row")
    case None
    then have "entries t row = []" by (simp add: entries_def)
    with None Cons show ?thesis by auto
  next
    case (Some l)
    then have "entries t row = l" by (simp add: entries_def)
    with Some Cons show ?thesis by (auto simp: probeIndeces_set)
  qed
qed

lemma probeHashes_sorted:
  "sorted ts \<Longrightarrow> distinct ts \<Longrightarrow> sorted (probeHashes t q hs ts) \<and> distinct (probeHashes t q hs ts)"
proof (induction hs arbitrary: ts)
  case Nil
  then show ?case by simp
next
  case (Cons row rows)
  then show ?case
    by (cases "t row") (simp_all add: probeIndeces_sorted)
qed

lemma searchTargets_set:
  "set (searchTargets t q ref)
   = {i. i < q \<and> (\<exists>h \<in> set (hashesSorted ref). i \<in> set (entries t h))}"
  by (simp add: searchTargets_def probeHashes_set)

lemma searchTargets_strict: "sorted_wrt (<) (searchTargets t q ref)"
  using probeHashes_sorted [of "[]" t q "hashesSorted ref"]
  by (simp add: searchTargets_def strict_sorted_iff)

lemma searchTargets_filled:
  assumes "fillHashTable sk Map.empty B start e = Some (t, n)"
    and "e \<le> length (references sk)"
  shows "set (searchTargets t q ref)
     = {i. start \<le> i \<and> i < e \<and> i < q
           \<and> set (hashesSorted (references sk ! i)) \<inter> set (hashesSorted ref) \<noteq> {}}"
proof -
  from fillHashTable_entries [OF assms(2), of B start] assms(1)
  have "\<forall>h. entries t h = concat (map (occurrences sk h) [start..<e])"
    by auto
  then have "\<And>h i. i \<in> set (entries t h)
     \<longleftrightarrow> start \<le> i \<and> i < e \<and> h \<in> set (hashesSorted (references sk ! i))"
    by (simp only: set_occurrences mem_Collect_eq simp_thms)
  then show ?thesis
    unfolding searchTargets_set by auto
qed

text \<open>
  C5.  For every query index \<open>q\<close> the candidate set is exactly the set of the indices
  below \<open>q\<close> that occur in the list of some hash of the query; it holds no index twice
  and none that is \<open>q\<close> or above.  When the index is the one built for the round
  \<open>[start, end)\<close>, the candidates are exactly the references of the round below \<open>q\<close>
  that share at least one hash with the query: no pair without a common hash reaches
  the estimator, and every pair with one does.
\<close>

theorem searchTargets_exact:
  "set (searchTargets t q ref)
     = {i. i < q \<and> (\<exists>h \<in> set (hashesSorted ref). i \<in> set (entries t h))}
   \<and> distinct (searchTargets t q ref)
   \<and> (\<forall>i \<in> set (searchTargets t q ref). \<not> q \<le> i)
   \<and> (fillHashTable sk Map.empty B start end = Some (t, n) \<and> end \<le> length (references sk)
        \<longrightarrow> set (searchTargets t q ref)
            = {i. start \<le> i \<and> i < end \<and> i < q
                  \<and> set (hashesSorted (references sk ! i)) \<inter> set (hashesSorted ref) \<noteq> {}})"
proof -
  have "distinct (searchTargets t q ref)"
    using searchTargets_strict [of t q ref] by (simp add: strict_sorted_iff)
  moreover have "\<forall>i \<in> set (searchTargets t q ref). \<not> q \<le> i"
    by (auto simp: searchTargets_set)
  ultimately show ?thesis
    using searchTargets_set [of t q ref] searchTargets_filled [of sk B start "end" t n q ref]
    by blast
qed

theorem searchTargets_exact_witness:
  "4 \<le> length (references demoSketch)
   \<and> (\<exists>t. fillHashTable demoSketch Map.empty hashTableSize 0 4 = Some (t, hashTableSize)
        \<and> searchTargets t 3 (references demoSketch ! 3) = [0, 2]
        \<and> set (searchTargets t 3 (references demoSketch ! 3))
          = {i. 0 \<le> i \<and> i < 4 \<and> i < 3
                \<and> set (hashesSorted (references demoSketch ! i))
                  \<inter> set (hashesSorted (references demoSketch ! 3)) \<noteq> {}})"
proof -
  have l: "4 \<le> length (references demoSketch)"
    by (simp add: demoSketch_def)
  obtain t where t: "fillHashTable demoSketch Map.empty hashTableSize 0 4 = Some (t, hashTableSize)"
    using fillHashTable_entries [OF l, of hashTableSize 0] by blast
  with demo_targets have "searchTargets t 3 (references demoSketch ! 3) = [0, 2]"
    by simp
  with searchTargets_exact [of t 3 "references demoSketch ! 3" demoSketch hashTableSize 0 4 hashTableSize] t l
  show ?thesis by blast
qed

lemma scoreTargets_ascending:
  assumes "scoreTargets pv input s k ks targets = Some ps"
    and "sorted_wrt (<) targets"
  shows "sorted_wrt (<) (map index ps) \<and> set (map index ps) \<subseteq> set targets"
  using assms
proof (induction targets arbitrary: ps)
  case Nil
  then show ?case by simp
next
  case (Cons i targets)
  from Cons.prems(1) obtain hit pair rest where
    r: "scoreTargets pv input s k ks targets = Some rest"
    and p: "ps = (if hit then pair\<lparr>index := i\<rparr> # rest else rest)"
    by (auto split: option.splits)
  from Cons.prems(2) have st: "sorted_wrt (<) targets" and lt: "\<forall>x \<in> set targets. i < x"
    by simp_all
  from Cons.IH [OF r st] have ih: "sorted_wrt (<) (map index rest)"
    "set (map index rest) \<subseteq> set targets"
    by simp_all
  with lt p show ?case by auto
qed

lemma scoreTargets_returns:
  assumes "index_in input < length (references (sketch_in input))"
    and "\<forall>i \<in> set targets. i < length (references (sketch_in input))"
  shows "\<exists>ps. scoreTargets pv input s k ks targets = Some ps"
  using assms(2)
proof (induction targets)
  case Nil
  then show ?case by simp
next
  case (Cons i targets)
  then obtain rest where r: "scoreTargets pv input s k ks targets = Some rest"
    by auto
  obtain hit pair where
    "compareSketches pv pair0 (references (sketch_in input) ! index_in input)
       (references (sketch_in input) ! i) s k ks (maxDistance input) (maxPValue input)
     = Some (hit, pair)"
    using compareSketches_returns by (metis prod.exhaust)
  with r assms(1) Cons.prems show ?case
    by (simp add: getReference_def)
qed

lemma search_returns:
  assumes "index_in input < length (references (sketch_in input))"
    and "\<forall>h. \<forall>i \<in> set (entries (hashTable input) h). i < length (references (sketch_in input))"
  shows "\<exists>output. search pv input = Some output"
proof -
  let ?ref = "references (sketch_in input) ! index_in input"
  have "\<forall>i \<in> set (searchTargets (hashTable input) (index_in input) ?ref).
          i < length (references (sketch_in input))"
    using assms(2) by (auto simp: searchTargets_set)
  from scoreTargets_returns [OF assms(1) this]
  obtain ps where "scoreTargets pv input (unat (minHashesPerWindow (sketch_in input)))
      (kmerSize (sketch_in input)) (kmerSpace (sketch_in input))
      (searchTargets (hashTable input) (index_in input) ?ref) = Some ps"
    by blast
  then show ?thesis
    using assms(1) by (simp add: search_def Let_def getReference_def)
qed
lemma demo_refs:
  "getReference demoSketch 0 = Some \<lparr>name = ''a'', length_ref = 10, hashesSorted = [1, 5]\<rparr>"
  "getReference demoSketch 2 = Some \<lparr>name = ''c'', length_ref = 10, hashesSorted = [1, 5]\<rparr>"
  "getReference demoSketch 3 = Some \<lparr>name = ''d'', length_ref = 10, hashesSorted = [1, 5]\<rparr>"
  by (simp_all add: getReference_def demoSketch_def)

lemma demo_compare:
  "hashesSorted r = [1, 5] \<Longrightarrow> hashesSorted r' = [1, 5] \<Longrightarrow>
   compareSketches (\<lambda>x lr lq ks n. 1 / 2) pair0 r r' 2 9 ks 1 1
   = Some (True, \<lparr>index = 0, numer = 2, denom = 2, distance = 0, pValue = 1 / 2\<rparr>)"
proof -
  assume a: "hashesSorted r = [1, 5]" "hashesSorted r' = [1, 5]"
  have s: "sketchCounts (hashesSorted r) (hashesSorted r') 2 = Some (2, 2)"
    using demo_counts a by simp
  have d: "distanceOf 2 2 9 = 0" by (simp add: distanceOf_def)
  show ?thesis
    unfolding compareSketches_unfold [OF s] by (simp add: d pair0_def)
qed

text \<open>
  C8.  The accepted pairs of a query's result are in strictly ascending order of
  reference index.
\<close>

theorem search_pairs_ascending:
  assumes "search pv input = Some output"
  shows "sorted_wrt (<) (map index (pairs output))"
proof -
  from assms obtain ref ps where
    g: "getReference (sketch_in input) (index_in input) = Some ref"
    and s: "scoreTargets pv input (unat (minHashesPerWindow (sketch_in input)))
              (kmerSize (sketch_in input)) (kmerSpace (sketch_in input))
              (searchTargets (hashTable input) (index_in input) ref) = Some ps"
    and o: "pairs output = ps"
    by (auto simp: search_def Let_def split: option.splits)
  from scoreTargets_ascending [OF s searchTargets_strict]
  have "sorted_wrt (<) (map index ps)"
    "set (map index ps) \<subseteq> set (searchTargets (hashTable input) (index_in input) ref)"
    by simp_all
  with o show ?thesis
    by simp
qed

theorem search_pairs_ascending_witness:
  "\<exists>t. fillHashTable demoSketch Map.empty hashTableSize 0 4 = Some (t, hashTableSize)
     \<and> search (\<lambda>x lr lq ks n. 1 / 2)
         \<lparr>sketch_in = demoSketch, index_in = 3, maxDistance = 1, maxPValue = 1,
            hashTable = t, hashTableSize_in = hashTableSize\<rparr>
       = Some \<lparr>sketch_out = demoSketch, index_out = 3,
               pairs = [\<lparr>index = 0, numer = 2, denom = 2, distance = 0, pValue = 1 / 2\<rparr>,
                        \<lparr>index = 2, numer = 2, denom = 2, distance = 0, pValue = 1 / 2\<rparr>]\<rparr>
     \<and> sorted_wrt (<) [0, 2 :: nat]"
proof -
  have l: "4 \<le> length (references demoSketch)"
    by (simp add: demoSketch_def)
  obtain t where t: "fillHashTable demoSketch Map.empty hashTableSize 0 4 = Some (t, hashTableSize)"
    using fillHashTable_entries [OF l, of hashTableSize 0] by blast
  with demo_targets have g: "searchTargets t 3 (references demoSketch ! 3) = [0, 2]"
    by simp
  have r3: "references demoSketch ! 3 = \<lparr>name = ''d'', length_ref = 10, hashesSorted = [1, 5]\<rparr>"
    by (simp add: demoSketch_def)
  have m: "unat (minHashesPerWindow demoSketch) = 2" "kmerSize demoSketch = 9"
    by (simp_all add: demoSketch_def)
  let ?input = "\<lparr>sketch_in = demoSketch, index_in = 3, maxDistance = 1, maxPValue = 1,
            hashTable = t, hashTableSize_in = hashTableSize\<rparr>"
  have s: "search (\<lambda>x lr lq ks n. 1 / 2) ?input
       = Some \<lparr>sketch_out = demoSketch, index_out = 3,
               pairs = [\<lparr>index = 0, numer = 2, denom = 2, distance = 0, pValue = 1 / 2\<rparr>,
                        \<lparr>index = 2, numer = 2, denom = 2, distance = 0, pValue = 1 / 2\<rparr>]\<rparr>"
    using g r3 by (simp add: search_def Let_def demo_refs m demo_compare)
  from search_pairs_ascending [OF s] t s show ?thesis by simp
qed

section \<open>The matrix output\<close>

lemma demo_rounds:
  "roundRanges (getReferenceCount demoSketch) (minHashesPerWindow demoSketch) hashTableSize
   = [(0, 4)]"
  by code_simp

lemma demo_all_targets:
  "(case fillHashTable demoSketch Map.empty hashTableSize 0 4 of
      None \<Rightarrow> None
    | Some (t, n) \<Rightarrow> Some (map (\<lambda>q. searchTargets t q (references demoSketch ! q)) [1, 2, 3]))
   = Some [[], [0], [0, 2]]"
  by code_simp

lemma demo_ref_all:
  "getReference demoSketch (Suc 0) = Some \<lparr>name = ''b'', length_ref = 10, hashesSorted = [2, 7]\<rparr>"
  "getReference demoSketch 0 = Some \<lparr>name = ''a'', length_ref = 10, hashesSorted = [1, 5]\<rparr>"
  "getReference demoSketch 1 = Some \<lparr>name = ''b'', length_ref = 10, hashesSorted = [2, 7]\<rparr>"
  "getReference demoSketch 2 = Some \<lparr>name = ''c'', length_ref = 10, hashesSorted = [1, 5]\<rparr>"
  "getReference demoSketch 3 = Some \<lparr>name = ''d'', length_ref = 10, hashesSorted = [1, 5]\<rparr>"
  by (simp_all add: getReference_def demoSketch_def)

lemma demo_nth:
  "references demoSketch ! Suc 0 = \<lparr>name = ''b'', length_ref = 10, hashesSorted = [2, 7]\<rparr>"
  "references demoSketch ! 1 = \<lparr>name = ''b'', length_ref = 10, hashesSorted = [2, 7]\<rparr>"
  "references demoSketch ! 2 = \<lparr>name = ''c'', length_ref = 10, hashesSorted = [1, 5]\<rparr>"
  "references demoSketch ! 3 = \<lparr>name = ''d'', length_ref = 10, hashesSorted = [1, 5]\<rparr>"
  by (simp_all add: demoSketch_def)

lemma demo_compare_any:
  assumes "\<forall>x lr lq ks n. pv x lr lq ks n \<le> 1"
    and "hashesSorted r = [1, 5]" and "hashesSorted r' = [1, 5]"
  shows "compareSketches pv pair0 r r' 2 9 ks 1 1
   = Some (True, \<lparr>index = 0, numer = 2, denom = 2, distance = 0,
                   pValue = pv 2 (length_ref r) (length_ref r') ks 2\<rparr>)"
proof -
  have s: "sketchCounts (hashesSorted r) (hashesSorted r') 2 = Some (2, 2)"
    using demo_counts assms(2,3) by simp
  have d: "distanceOf 2 2 9 = 0" by (simp add: distanceOf_def)
  show ?thesis
    unfolding compareSketches_unfold [OF s] by (simp add: d pair0_def assms(1))
qed

lemma demo_run:
  assumes pv: "\<forall>x lr lq ks n. pv x lr lq ks n \<le> 1"
  shows "run pv demoSketch True 1 1
   = Some ([Str ''#query'', Tab, Str ''a'', Tab, Str ''b'', Tab, Str ''c'', Tab, Str ''d'', Endl,
            Str ''b'', Tab, Endl,
            Str ''c'', Tab, Tab, Num 0, Endl,
            Str ''d'', Tab, Tab, Num 0, Tab, Tab, Tab, Num 0, Endl])"
proof -
  have l: "4 \<le> length (references demoSketch)"
    by (simp add: demoSketch_def)
  obtain t where t: "fillHashTable demoSketch Map.empty hashTableSize 0 4 = Some (t, hashTableSize)"
    using fillHashTable_entries [OF l, of hashTableSize 0] by blast
  with demo_all_targets have g:
    "searchTargets t (Suc 0) \<lparr>name = ''b'', length_ref = 10, hashesSorted = [2, 7]\<rparr> = []"
    "searchTargets t 2 \<lparr>name = ''c'', length_ref = 10, hashesSorted = [1, 5]\<rparr> = [0]"
    "searchTargets t 3 \<lparr>name = ''d'', length_ref = 10, hashesSorted = [1, 5]\<rparr> = [0, 2]"
    by (simp_all add: demo_nth)
  have m: "unat (minHashesPerWindow demoSketch) = 2" "kmerSize demoSketch = 9"
    by (simp_all add: demoSketch_def)
  have cmp: "\<And>r r' ks. hashesSorted r = [1, 5] \<Longrightarrow> hashesSorted r' = [1, 5] \<Longrightarrow>
    compareSketches pv pair0 r r' 2 9 ks 1 1
     = Some (True, \<lparr>index = 0, numer = 2, denom = 2, distance = 0,
                   pValue = pv 2 (length_ref r) (length_ref r') ks 2\<rparr>)"
    using demo_compare_any [OF pv] by blast
  have rep: "replicate 2 Tab = [Tab, Tab]"
    by (simp add: numeral_2_eq_2)
  have q: "[Suc 0..<4] = [Suc 0, 2, 3]"
    by (simp add: upt_conv_Cons)
  have rq: "runQueries pv demoSketch 1 1 t hashTableSize True [Suc 0, 2, 3]
    = Some [Str ''b'', Tab, Endl,
            Str ''c'', Tab, Tab, Num 0, Endl,
            Str ''d'', Tab, Tab, Num 0, Tab, Tab, Tab, Num 0, Endl]"
    by (simp add: search_def Let_def demo_ref_all g m cmp writeOutput_def rep)
  have h: "tableHeader demoSketch
     = [Str ''#query'', Tab, Str ''a'', Tab, Str ''b'', Tab, Str ''c'', Tab, Str ''d'', Endl]"
    by (simp add: tableHeader_def demoSketch_def)
  show ?thesis
    by (simp add: run_def demo_rounds t q rq h del: runQueries.simps)
qed

lemma wide_rounds:
  "roundRanges (getReferenceCount demoSketchWide) (minHashesPerWindow demoSketchWide) hashTableSize
   = [(0, 1), (1, 2), (2, 3), (3, 4)]"
  by code_simp

lemma wide_targets:
  "(case fillHashTable demoSketchWide Map.empty hashTableSize 1 2 of
      None \<Rightarrow> None
    | Some (t, n) \<Rightarrow>
        Some (map (\<lambda>q. searchTargets t q (references demoSketchWide ! q)) [1..<2]))
   = Some (map (\<lambda>q. []) [1..<2])"
  "(case fillHashTable demoSketchWide Map.empty hashTableSize 2 3 of
      None \<Rightarrow> None
    | Some (t, n) \<Rightarrow>
        Some (map (\<lambda>q. searchTargets t q (references demoSketchWide ! q)) [1..<3]))
   = Some (map (\<lambda>q. []) [1..<3])"
  "(case fillHashTable demoSketchWide Map.empty hashTableSize 3 4 of
      None \<Rightarrow> None
    | Some (t, n) \<Rightarrow>
        Some (map (\<lambda>q. searchTargets t q (references demoSketchWide ! q)) [1..<4]))
   = Some (map (\<lambda>q. []) [1..<4])"
  by code_simp+

lemma search_no_targets:
  assumes "getReference sk q = Some ref" and "searchTargets t q ref = []"
  shows "search pv \<lparr>sketch_in = sk, index_in = q, maxDistance = dmax, maxPValue = pmax,
                    hashTable = t, hashTableSize_in = n\<rparr>
         = Some \<lparr>sketch_out = sk, index_out = q, pairs = []\<rparr>"
  using assms by (simp add: search_def Let_def)

lemma writeOutput_no_pairs:
  assumes "getReference sk q = Some ref"
  shows "writeOutput \<lparr>sketch_out = sk, index_out = q, pairs = []\<rparr> True
         = Some [Str (name ref), Tab, Endl]"
  using assms by (simp add: writeOutput_def)

lemma runQueries_no_targets:
  assumes "\<forall>q \<in> set qs. q < length (references sk)
             \<and> searchTargets t q (references sk ! q) = []"
  shows "runQueries pv sk dmax pmax t n True qs
         = Some (concat (map (\<lambda>q. [Str (name (references sk ! q)), Tab, Endl]) qs))"
  using assms
proof (induction qs)
  case Nil
  then show ?case by simp
next
  case (Cons q qs)
  then have g: "getReference sk q = Some (references sk ! q)"
    and e: "searchTargets t q (references sk ! q) = []"
    by (simp_all add: getReference_def)
  from Cons show ?case
    by (simp add: search_no_targets [OF g e] writeOutput_no_pairs [OF g])
qed

lemma wide_round:
  assumes "e \<le> 4"
    and "(case fillHashTable demoSketchWide Map.empty hashTableSize s e of
      None \<Rightarrow> None
    | Some (t, n) \<Rightarrow> Some (map (\<lambda>q. searchTargets t q (references demoSketchWide ! q)) [1..<e]))
      = Some (map (\<lambda>q. []) [1..<e])"
  shows "\<exists>t. fillHashTable demoSketchWide Map.empty hashTableSize s e = Some (t, hashTableSize)
     \<and> runQueries pv demoSketchWide dmax pmax t hashTableSize True [1..<e]
       = Some (concat (map (\<lambda>q. [Str (name (references demoSketchWide ! q)), Tab, Endl]) [1..<e]))"
proof -
  have l: "e \<le> length (references demoSketchWide)"
    using assms(1) by (simp add: demoSketchWide_def demoSketch_def)
  obtain t where t: "fillHashTable demoSketchWide Map.empty hashTableSize s e = Some (t, hashTableSize)"
    using fillHashTable_entries [OF l, of hashTableSize s] by blast
  with assms(2) have "\<forall>q \<in> set [1..<e]. searchTargets t q (references demoSketchWide ! q) = []"
    by simp
  then have "\<forall>q \<in> set [1..<e]. q < length (references demoSketchWide)
             \<and> searchTargets t q (references demoSketchWide ! q) = []"
    using l by auto
  from runQueries_no_targets [OF this] t show ?thesis
    by blast
qed

lemma wide_names:
  "name (references demoSketchWide ! Suc 0) = ''b''"
  "name (references demoSketchWide ! 2) = ''c''"
  "name (references demoSketchWide ! 3) = ''d''"
  by (simp_all add: demoSketchWide_def demoSketch_def)

lemma wide_run:
  "run pv demoSketchWide True 1 1
   = Some ([Str ''#query'', Tab, Str ''a'', Tab, Str ''b'', Tab, Str ''c'', Tab, Str ''d'', Endl,
            Str ''b'', Tab, Endl,
            Str ''b'', Tab, Endl,
            Str ''c'', Tab, Endl,
            Str ''b'', Tab, Endl,
            Str ''c'', Tab, Endl,
            Str ''d'', Tab, Endl])"
proof -
  have u: "[Suc 0..<Suc 0] = []" "[Suc 0..<2] = [Suc 0]" "[Suc 0..<3] = [Suc 0, 2]"
    "[Suc 0..<4] = [Suc 0, 2, 3]"
    by (simp_all add: upt_conv_Cons)
  have l: "Suc 0 \<le> length (references demoSketchWide)"
    by (simp add: demoSketchWide_def demoSketch_def)
  obtain t0 where t0:
    "fillHashTable demoSketchWide Map.empty hashTableSize 0 (Suc 0) = Some (t0, hashTableSize)"
    using fillHashTable_entries [OF l, of hashTableSize 0] by blast
  have "\<exists>t. fillHashTable demoSketchWide Map.empty hashTableSize 1 2 = Some (t, hashTableSize)
     \<and> runQueries pv demoSketchWide 1 1 t hashTableSize True [1..<2]
       = Some (concat (map (\<lambda>q. [Str (name (references demoSketchWide ! q)), Tab, Endl]) [1..<2]))"
    by (rule wide_round [OF _ wide_targets(1)]) simp
  then obtain t1 where t1:
    "fillHashTable demoSketchWide Map.empty hashTableSize (Suc 0) 2 = Some (t1, hashTableSize)"
    "runQueries pv demoSketchWide 1 1 t1 hashTableSize True [Suc 0]
       = Some [Str ''b'', Tab, Endl]"
    by (auto simp add: u wide_names simp del: runQueries.simps(2))
  have "\<exists>t. fillHashTable demoSketchWide Map.empty hashTableSize 2 3 = Some (t, hashTableSize)
     \<and> runQueries pv demoSketchWide 1 1 t hashTableSize True [1..<3]
       = Some (concat (map (\<lambda>q. [Str (name (references demoSketchWide ! q)), Tab, Endl]) [1..<3]))"
    by (rule wide_round [OF _ wide_targets(2)]) simp
  then obtain t2 where t2:
    "fillHashTable demoSketchWide Map.empty hashTableSize 2 3 = Some (t2, hashTableSize)"
    "runQueries pv demoSketchWide 1 1 t2 hashTableSize True [Suc 0, 2]
       = Some [Str ''b'', Tab, Endl, Str ''c'', Tab, Endl]"
    by (auto simp add: u wide_names simp del: runQueries.simps(2))
  have "\<exists>t. fillHashTable demoSketchWide Map.empty hashTableSize 3 4 = Some (t, hashTableSize)
     \<and> runQueries pv demoSketchWide 1 1 t hashTableSize True [1..<4]
       = Some (concat (map (\<lambda>q. [Str (name (references demoSketchWide ! q)), Tab, Endl]) [1..<4]))"
    by (rule wide_round [OF _ wide_targets(3)]) simp
  then obtain t3 where t3:
    "fillHashTable demoSketchWide Map.empty hashTableSize 3 4 = Some (t3, hashTableSize)"
    "runQueries pv demoSketchWide 1 1 t3 hashTableSize True [Suc 0, 2, 3]
       = Some [Str ''b'', Tab, Endl, Str ''c'', Tab, Endl, Str ''d'', Tab, Endl]"
    by (auto simp add: u wide_names simp del: runQueries.simps(2))
  have h: "tableHeader demoSketchWide
     = [Str ''#query'', Tab, Str ''a'', Tab, Str ''b'', Tab, Str ''c'', Tab, Str ''d'', Endl]"
    by (simp add: tableHeader_def demoSketchWide_def demoSketch_def)
  show ?thesis
    by (simp add: run_def wide_rounds t0 t1 t2 t3 u h del: runQueries.simps(2))
qed

text \<open>
  C9.  The claim: in matrix mode the run emits exactly one row per query index, each
  row with one tab-separated cell per reference index below the query, blank where no
  pair was accepted and holding the raw distance where one was.  The run is evaluated
  on the collection \<open>a, b, c, d\<close> in matrix mode with both thresholds at \<open>1\<close>
  (a p-value of \<open>1/2\<close> stands for the p-value of every pair; any value up to \<open>1\<close>
  gives the same rows).  The row of \<open>d\<close>, whose accepted references are \<open>0\<close> and
  \<open>2\<close>, has five cells with the distances in the second and the fifth, where the
  specified row has three cells with the distances in the first and the third.  With
  the sketch capacity \<open>2^26\<close> the same collection is processed in four rounds and the
  run emits six rows for its three queries.
\<close>

theorem run_table_rows_misplaced:
  "run (\<lambda>x lr lq ks n. 1 / 2) demoSketch True 1 1
   = Some [Str ''#query'', Tab, Str ''a'', Tab, Str ''b'', Tab, Str ''c'', Tab, Str ''d'', Endl,
           Str ''b'', Tab, Endl,
           Str ''c'', Tab, Tab, Num 0, Endl,
           Str ''d'', Tab, Tab, Num 0, Tab, Tab, Tab, Num 0, Endl]
   \<and> matrixRow ''d'' 3 [0 \<mapsto> 0, 2 \<mapsto> 0] = [Str ''d'', Tab, Num 0, Tab, Tab, Num 0, Endl]
   \<and> run (\<lambda>x lr lq ks n. 1 / 2) demoSketchWide True 1 1
     = Some [Str ''#query'', Tab, Str ''a'', Tab, Str ''b'', Tab, Str ''c'', Tab, Str ''d'', Endl,
             Str ''b'', Tab, Endl,
             Str ''b'', Tab, Endl,
             Str ''c'', Tab, Endl,
             Str ''b'', Tab, Endl,
             Str ''c'', Tab, Endl,
             Str ''d'', Tab, Endl]"
proof -
  have "matrixRow ''d'' 3 [0 \<mapsto> 0, 2 \<mapsto> 0] = [Str ''d'', Tab, Num 0, Tab, Tab, Num 0, Endl]"
    by code_simp
  then show ?thesis
    by (simp add: demo_run wide_run)
qed

end
